theory Spec2Isabelle
  imports Main "HOL-Library.Multiset"
begin

section \<open>Values, types and the entry store\<close>

text \<open>
  The package works on \<^verbatim>\<open>reflect.Value\<close>s. A value is modelled with the part of its
  dynamic type that the code inspects: its kind, and for a function its parameter types,
  result types and whether it is variadic. A function value carries an identity (the
  code it runs belongs to the caller of the package).
\<close>

datatype kind = KInvalid | KBool | KInt | KString | KPtr | KSlice | KStruct | KFunc

datatype gotype =
    TBool
  | TInt
  | TString
  | TNamed string
  | TPtr gotype
  | TSlice gotype
  | TFunc "gotype list" "gotype list" bool

type_synonym eref = nat

datatype val =
    VNil
  | VBool bool
  | VInt int
  | VString string
  | VPtr gotype nat
  | VSlice gotype "val list"
  | VFunc "gotype list" "gotype list" bool nat
  | VResult eref
  | VParsed "(eref \<Rightarrow> val list option) option"

text \<open>\<^verbatim>\<open>type parsed struct { entries map[*entry][]reflect.Value }\<close>; a \<^verbatim>\<open>*parsed\<close> is
  \<open>VParsed (Some m)\<close>, the nil pointer is \<open>VParsed None\<close>.\<close>

type_synonym parsed = "eref \<Rightarrow> val list option"

text \<open>\<^verbatim>\<open>type entry struct { fn reflect.Value; args []reflect.Value }\<close>. Entries live in a
  store and are referred to by address (\<^verbatim>\<open>*entry\<close>), because the two synthesized
  functions and the barrier share one entry. \<^verbatim>\<open>&entry{fn: fn}\<close> appends to the store; an
  address outside the store stands for a nil pointer, and reading through it panics.\<close>

record entry =
  fn :: val
  args :: "val list"

type_synonym store = "entry list"

definition lookup :: "store \<Rightarrow> eref \<Rightarrow> entry option" where
  "lookup h e = (if e < length h then Some (h ! e) else None)"

fun Kind :: "val \<Rightarrow> kind" where
  "Kind VNil = KInvalid"
| "Kind (VBool _) = KBool"
| "Kind (VInt _) = KInt"
| "Kind (VString _) = KString"
| "Kind (VPtr _ _) = KPtr"
| "Kind (VSlice _ _) = KSlice"
| "Kind (VFunc _ _ _ _) = KFunc"
| "Kind (VResult _) = KStruct"
| "Kind (VParsed _) = KPtr"

text \<open>\<^verbatim>\<open>fn.Type()\<close> and the accessors of a function type. \<^verbatim>\<open>Provide\<close> asks for the type
  of a value only after it has found its kind to be \<^verbatim>\<open>reflect.Func\<close>.\<close>

fun Type :: "val \<Rightarrow> gotype" where
  "Type (VFunc ins outs variadic _) = TFunc ins outs variadic"
| "Type (VBool _) = TBool"
| "Type (VInt _) = TInt"
| "Type (VString _) = TString"
| "Type (VPtr t _) = TPtr t"
| "Type (VSlice t _) = TSlice t"
| "Type (VResult _) = TNamed ''flagfx.result''"
| "Type (VParsed _) = TPtr (TNamed ''flagfx.parsed'')"
| "Type VNil = TNamed ''''"

fun params :: "gotype \<Rightarrow> gotype list" where
  "params (TFunc ins _ _) = ins"
| "params _ = []"

fun results :: "gotype \<Rightarrow> gotype list" where
  "results (TFunc _ outs _) = outs"
| "results _ = []"


definition NumIn :: "gotype \<Rightarrow> nat" where
  "NumIn t = length (params t)"

definition NumOut :: "gotype \<Rightarrow> nat" where
  "NumOut t = length (results t)"

definition In :: "gotype \<Rightarrow> nat \<Rightarrow> gotype" where
  "In t i = params t ! i"

definition Out :: "gotype \<Rightarrow> nat \<Rightarrow> gotype" where
  "Out t i = results t ! i"

definition FuncOf :: "gotype list \<Rightarrow> gotype list \<Rightarrow> bool \<Rightarrow> gotype" where
  "FuncOf ins outs variadic = TFunc ins outs variadic"

definition parsedPtrType :: gotype where
  "parsedPtrType = TPtr (TNamed ''flagfx.parsed'')"

definition parsedPtrTypes :: "gotype list" where
  "parsedPtrTypes = [parsedPtrType]"

definition resultType :: gotype where
  "resultType = TNamed ''flagfx.result''"

definition resultTypes :: "gotype list" where
  "resultTypes = [resultType]"

section \<open>Panics, the runtime outside the package, and the observable trace\<close>

datatype panic =
    UnexpectedNumberOfArguments
  | UnexpectedArgumentType
  | NilDereference
  | WrongReturnCount
  | CallPanic string

text \<open>
  What the package calls but does not own: \<^verbatim>\<open>reflect.Value.Call\<close> on a caller's
  constructor (which runs the constructor body against the state outside the package,
  the flag sets above all, and may panic), and \<^verbatim>\<open>Parsed\<close> and \<^verbatim>\<open>Parse\<close> of
  \<^verbatim>\<open>*flag.FlagSet\<close>. They are parameters of the model; \<open>'x\<close> is the state outside the
  package and a flag set is referred to by address.
\<close>

record 'x runtime =
  Call :: "val \<Rightarrow> val list \<Rightarrow> 'x \<Rightarrow> panic + (val list \<times> 'x)"
  Parsed :: "nat \<Rightarrow> 'x \<Rightarrow> bool"
  Parse :: "nat \<Rightarrow> string list \<Rightarrow> 'x \<Rightarrow> string option \<times> 'x"

text \<open>
  The trace is ghost state: it records, in order, each return of a Capture-stage
  function (with the entry and the arguments it was given), each call of a constructor
  through its entry (with the function and arguments read from the entry), each call of
  the flag set's \<^verbatim>\<open>Parse\<close>, and each return of a Release-stage function.
\<close>

datatype event =
    EvCapture eref "val list"
  | EvConstruct eref val "val list"
  | EvAction nat "string list"
  | EvRelease eref "val list"

record 'x world =
  heap :: store
  ext :: 'x
  trace :: "event list"

definition emit :: "event \<Rightarrow> 'x world \<Rightarrow> 'x world" where
  "emit ev w = w\<lparr>trace := trace w @ [ev]\<rparr>"

section \<open>The barrier: \<^verbatim>\<open>parse\<close>\<close>

text \<open>
  The loop \<^verbatim>\<open>for _, e := range p.Entries { parsed.entries[e] = e.fn.Call(e.args) }\<close>.
  A panic of the call ends the run.
\<close>

fun call_entries ::
  "'x runtime \<Rightarrow> eref list \<Rightarrow> parsed \<Rightarrow> 'x world \<Rightarrow> (panic + parsed) \<times> 'x world" where
  "call_entries rt [] m w = (Inr m, w)"
| "call_entries rt (e # es) m w =
     (case lookup (heap w) e of
        None \<Rightarrow> (Inl NilDereference, w)
      | Some en \<Rightarrow>
          (let w1 = emit (EvConstruct e (fn en) (args en)) w in
           case Call rt (fn en) (args en) (ext w1) of
             Inl p \<Rightarrow> (Inl p, w1)
           | Inr (outs, x') \<Rightarrow> call_entries rt es (m(e \<mapsto> outs)) (w1\<lparr>ext := x'\<rparr>)))"

text \<open>
  \<^verbatim>\<open>func parse(fs *flag.FlagSet, args Arguments, p params) (*parsed, error)\<close>. The result
  is the pair the Go function returns, or the panic that ended it.
\<close>

definition parse ::
  "'x runtime \<Rightarrow> nat \<Rightarrow> string list \<Rightarrow> eref list \<Rightarrow> 'x world
     \<Rightarrow> (panic + (parsed option \<times> string option)) \<times> 'x world" where
  "parse rt fs argv Entries w =
     (case call_entries rt Entries Map.empty w of
        (Inl p, w1) \<Rightarrow> (Inl p, w1)
      | (Inr m, w1) \<Rightarrow>
          if \<not> Parsed rt fs (ext w1) then
            (let w2 = emit (EvAction fs argv) w1 in
             case Parse rt fs argv (ext w2) of
               (Some err, x') \<Rightarrow> (Inr (None, Some err), w2\<lparr>ext := x'\<rparr>)
             | (None, x') \<Rightarrow> (Inr (Some m, None), w2\<lparr>ext := x'\<rparr>))
          else (Inr (Some m, None), w1))"

section \<open>\<^verbatim>\<open>Provide\<close> and the two synthesized functions\<close>

text \<open>The closure passed to \<^verbatim>\<open>reflect.MakeFunc\<close> for \<^verbatim>\<open>fn1\<close>: it stores the arguments in
  the entry and returns the entry in a \<^verbatim>\<open>result\<close>.\<close>

definition fn1 :: "eref \<Rightarrow> val list \<Rightarrow> store \<Rightarrow> panic + (val list \<times> store)" where
  "fn1 e avs h =
     (case lookup h e of
        None \<Rightarrow> Inl NilDereference
      | Some en \<Rightarrow> Inr ([VResult e], h[e := en\<lparr>args := avs\<rparr>]))"

text \<open>The closure passed to \<^verbatim>\<open>reflect.MakeFunc\<close> for \<^verbatim>\<open>fn2\<close>. A Go map read of a key
  that is absent gives the zero value, the nil slice.\<close>

definition fn2 :: "eref \<Rightarrow> val list \<Rightarrow> panic + val list" where
  "fn2 e avs =
     (if length avs \<noteq> 1 then Inl UnexpectedNumberOfArguments
      else case avs ! 0 of
             VParsed p \<Rightarrow>
               (case p of
                  None \<Rightarrow> Inl NilDereference
                | Some m \<Rightarrow> Inr (case m e of None \<Rightarrow> [] | Some outs \<Rightarrow> outs))
           | _ \<Rightarrow> Inl UnexpectedArgumentType)"

text \<open>A function made by \<^verbatim>\<open>reflect.MakeFunc(typ, closure)\<close>.\<close>

datatype closure = Fn1 eref | Fn2 eref

datatype funcval = MakeFunc gotype closure

fun typ_of :: "funcval \<Rightarrow> gotype" where
  "typ_of (MakeFunc t _) = t"

fun closure_of :: "funcval \<Rightarrow> closure" where
  "closure_of (MakeFunc _ c) = c"

datatype fxoption =
    fx_Provide "funcval list"
  | fx_Error string
  | fx_Options "fxoption list"

text \<open>The loops \<^verbatim>\<open>for i := range ft.NumIn() { in = append(in, ft.In(i)) }\<close> and the one
  over \<^verbatim>\<open>ft.NumOut()\<close>.\<close>

definition collect_types :: "nat \<Rightarrow> (nat \<Rightarrow> gotype) \<Rightarrow> gotype list" where
  "collect_types n get = map get [0..<n]"

text \<open>The body of \<^verbatim>\<open>Provide\<close>'s loop over the constructors, with \<^verbatim>\<open>opts\<close> and the entry
  store as state. \<^verbatim>\<open>break\<close> leaves the loop at the first value that is not a function.\<close>

fun Provide_loop :: "val list \<Rightarrow> fxoption list \<Rightarrow> store \<Rightarrow> fxoption list \<times> store" where
  "Provide_loop [] opts h = (opts, h)"
| "Provide_loop (constructor # rest) opts h =
     (if Kind constructor \<noteq> KFunc
      then (opts @ [fx_Error ''flagfx: Provide must be used with functions''], h)
      else
        (let ft = Type constructor;
             ins = collect_types (NumIn ft) (In ft);
             outs = collect_types (NumOut ft) (Out ft);
             e = length h;
             h' = h @ [\<lparr>fn = constructor, args = []\<rparr>];
             f1 = MakeFunc (FuncOf ins resultTypes False) (Fn1 e);
             f2 = MakeFunc (FuncOf parsedPtrTypes outs False) (Fn2 e)
         in Provide_loop rest (opts @ [fx_Provide [f1, f2]]) h'))"

definition Provide :: "val list \<Rightarrow> store \<Rightarrow> fxoption \<times> store" where
  "Provide constructors h =
     (case Provide_loop constructors [] h of (opts, h') \<Rightarrow> (fx_Options opts, h'))"

section \<open>The host container\<close>

text \<open>
  Modelled from the spec: the dependency-graph container (\<^verbatim>\<open>go.uber.org/fx\<close>) is an
  external collaborator and no part of the source. The spec gives its contract: graph
  construction is single-threaded; an option carrying an error stops startup before
  anything is resolved; every Capture-stage function is called once with the values the
  graph holds for its parameter types; their results are gathered into the group handed
  to the barrier, in an order the consumer must treat as unspecified; the barrier runs
  once; when it fails nothing that depends on its result is called; otherwise every
  Release-stage function is called once with the barrier's result. The container
  resolves on demand: the model follows a pass in which the barrier's result is demanded
  and every Release-stage output is asked for. It tells the two synthesized functions
  apart by their closures, as the container does by their types (a \<^verbatim>\<open>result\<close> out, a
  \<^verbatim>\<open>*parsed\<close> in), which no other function can mention.
\<close>

record host =
  resolved :: "gotype \<Rightarrow> val"
  shuffle :: "eref list \<Rightarrow> eref list"

text \<open>Calling a function made by \<^verbatim>\<open>reflect.MakeFunc\<close> runs its closure; the reflect
  runtime then panics (\<^verbatim>\<open>wrong return count from function created by MakeFunc\<close>) when
  the closure did not return one value per result of the function's type.\<close>

definition invoke :: "funcval \<Rightarrow> val list \<Rightarrow> store \<Rightarrow> panic + (val list \<times> store)" where
  "invoke f avs h =
     (case (case closure_of f of
              Fn1 e \<Rightarrow> fn1 e avs h
            | Fn2 e \<Rightarrow> (case fn2 e avs of Inl p \<Rightarrow> Inl p | Inr outs \<Rightarrow> Inr (outs, h))) of
        Inl p \<Rightarrow> Inl p
      | Inr (outs, h') \<Rightarrow>
          if length outs \<noteq> NumOut (typ_of f) then Inl WrongReturnCount else Inr (outs, h'))"

fun provided :: "fxoption \<Rightarrow> funcval list" where
  "provided (fx_Provide fs) = fs"
| "provided (fx_Error _) = []"
| "provided (fx_Options os) = concat (map provided os)"

fun option_errors :: "fxoption \<Rightarrow> string list" where
  "option_errors (fx_Provide _) = []"
| "option_errors (fx_Error msg) = [msg]"
| "option_errors (fx_Options os) = concat (map option_errors os)"

fun group_entries :: "val list \<Rightarrow> eref list" where
  "group_entries [] = []"
| "group_entries (VResult e # vs) = e # group_entries vs"
| "group_entries (_ # vs) = group_entries vs"

fun run_captures :: "host \<Rightarrow> funcval list \<Rightarrow> 'x world \<Rightarrow> (panic + eref list) \<times> 'x world" where
  "run_captures hst [] w = (Inr [], w)"
| "run_captures hst (f # fs) w =
     (case closure_of f of
        Fn2 _ \<Rightarrow> run_captures hst fs w
      | Fn1 e \<Rightarrow>
          (let avs = map (resolved hst) (params (typ_of f)) in
           case invoke f avs (heap w) of
             Inl p \<Rightarrow> (Inl p, w)
           | Inr (outs, h') \<Rightarrow>
               (case run_captures hst fs (emit (EvCapture e avs) (w\<lparr>heap := h'\<rparr>)) of
                  (Inl p, w') \<Rightarrow> (Inl p, w')
                | (Inr es, w') \<Rightarrow> (Inr (group_entries outs @ es), w'))))"

fun run_releases ::
  "funcval list \<Rightarrow> parsed option \<Rightarrow> 'x world \<Rightarrow> (panic + (eref \<times> val list) list) \<times> 'x world" where
  "run_releases [] pm w = (Inr [], w)"
| "run_releases (f # fs) pm w =
     (case closure_of f of
        Fn1 _ \<Rightarrow> run_releases fs pm w
      | Fn2 e \<Rightarrow>
          (case invoke f [VParsed pm] (heap w) of
             Inl p \<Rightarrow> (Inl p, w)
           | Inr (outs, h') \<Rightarrow>
               (case run_releases fs pm (emit (EvRelease e outs) (w\<lparr>heap := h'\<rparr>)) of
                  (Inl p, w') \<Rightarrow> (Inl p, w')
                | (Inr rs, w') \<Rightarrow> (Inr ((e, outs) # rs), w'))))"

datatype outcome =
    ConfigError string
  | Panicked panic
  | StartupFailed string
  | Started "(eref \<times> val list) list"

definition resolve ::
  "'x runtime \<Rightarrow> host \<Rightarrow> fxoption \<Rightarrow> nat \<Rightarrow> string list \<Rightarrow> 'x world \<Rightarrow> outcome \<times> 'x world" where
  "resolve rt hst opt fs argv w =
     (case option_errors opt of
        msg # _ \<Rightarrow> (ConfigError msg, w)
      | [] \<Rightarrow>
          (case run_captures hst (provided opt) w of
             (Inl p, w1) \<Rightarrow> (Panicked p, w1)
           | (Inr es, w1) \<Rightarrow>
               (case parse rt fs argv (shuffle hst es) w1 of
                  (Inl p, w2) \<Rightarrow> (Panicked p, w2)
                | (Inr (pm, Some err), w2) \<Rightarrow> (StartupFailed err, w2)
                | (Inr (pm, None), w2) \<Rightarrow>
                    (case run_releases (provided opt) pm w2 of
                       (Inl p, w3) \<Rightarrow> (Panicked p, w3)
                     | (Inr rs, w3) \<Rightarrow> (Started rs, w3)))))"

section \<open>A small application\<close>

text \<open>
  The example of the repository: \<^verbatim>\<open>logfx\<close> registers the flag \<^verbatim>\<open>log-level\<close> and
  \<^verbatim>\<open>verfx\<close> the flag \<^verbatim>\<open>version\<close>, each from a constructor that takes the flag set and
  returns a pointer to its flag struct. The state outside the package is the flag set:
  the names defined so far and whether it has been parsed. Parsing fails on a token that
  names no defined flag.
\<close>

record flagset =
  defined :: "string list"
  was_parsed :: bool

definition flagSetPtr :: gotype where
  "flagSetPtr = TPtr (TNamed ''flag.FlagSet'')"

definition logfx_ctor :: val where
  "logfx_ctor = VFunc [flagSetPtr] [TPtr (TNamed ''logfx.flags'')] False 0"

definition verfx_ctor :: val where
  "verfx_ctor = VFunc [flagSetPtr] [TPtr (TNamed ''verfx.flags'')] False 1"

fun demo_Call :: "val \<Rightarrow> val list \<Rightarrow> flagset \<Rightarrow> panic + (val list \<times> flagset)" where
  "demo_Call (VFunc ins outs variadic f) avs x =
     (if length avs \<noteq> length ins then Inl (CallPanic ''reflect: Call with wrong argument count'')
      else if f = 0 then
        Inr ([VPtr (TNamed ''logfx.flags'') 0], x\<lparr>defined := defined x @ [''log-level'']\<rparr>)
      else if f = 1 then
        Inr ([VPtr (TNamed ''verfx.flags'') 1], x\<lparr>defined := defined x @ [''version'']\<rparr>)
      else Inr ([], x))"
| "demo_Call _ avs x = Inl (CallPanic ''reflect: call of non-function'')"

definition demo_Parse :: "nat \<Rightarrow> string list \<Rightarrow> flagset \<Rightarrow> string option \<times> flagset" where
  "demo_Parse fs argv x =
     (if filter (\<lambda>a. a \<notin> set (defined x)) argv = [] then None
      else Some ''flag provided but not defined'',
      x\<lparr>was_parsed := True\<rparr>)"

definition demo_rt :: "flagset runtime" where
  "demo_rt = \<lparr>Call = demo_Call, Parsed = (\<lambda>fs x. was_parsed x), Parse = demo_Parse\<rparr>"

definition demo_host :: host where
  "demo_host = \<lparr>resolved = (\<lambda>t. VPtr (TNamed ''flag.FlagSet'') 0), shuffle = rev\<rparr>"

definition demo_world :: "store \<Rightarrow> bool \<Rightarrow> flagset world" where
  "demo_world h p = \<lparr>heap = h, ext = \<lparr>defined = [], was_parsed = p\<rparr>, trace = []\<rparr>"

section \<open>Vocabulary of the statements\<close>

text \<open>What \<^verbatim>\<open>Provide\<close> is expected to register for a constructor \<open>c\<close> whose entry is
  at address \<open>e\<close>, and the entry it allocates.\<close>

definition is_func :: "val \<Rightarrow> bool" where
  "is_func c = (Kind c = KFunc)"

definition providers_for :: "eref \<Rightarrow> val \<Rightarrow> funcval list" where
  "providers_for e c =
     [MakeFunc (TFunc (params (Type c)) [resultType] False) (Fn1 e),
      MakeFunc (TFunc [parsedPtrType] (results (Type c)) False) (Fn2 e)]"

definition new_entry :: "val \<Rightarrow> entry" where
  "new_entry c = \<lparr>fn = c, args = []\<rparr>"

definition not_a_function :: string where
  "not_a_function = ''flagfx: Provide must be used with functions''"



definition noresult_ctor :: val where
  "noresult_ctor = VFunc [flagSetPtr] [] False 3"

text \<open>Predicates on the events of a trace.\<close>

fun is_action :: "event \<Rightarrow> bool" where
  "is_action (EvAction _ _) = True"
| "is_action _ = False"


fun is_release :: "event \<Rightarrow> bool" where
  "is_release (EvRelease _ _) = True"
| "is_release _ = False"

fun is_capture_event :: "event \<Rightarrow> bool" where
  "is_capture_event (EvCapture _ _) = True"
| "is_capture_event _ = False"

text \<open>The event of the barrier calling the constructor of the entry at \<open>e\<close>.\<close>

definition construct_event :: "store \<Rightarrow> eref \<Rightarrow> event" where
  "construct_event h e = EvConstruct e (fn (h ! e)) (args (h ! e))"



text \<open>The values the host passes to the Capture-stage function of a constructor, and the
  entry once they are captured.\<close>

definition deps :: "host \<Rightarrow> val \<Rightarrow> val list" where
  "deps hst c = map (resolved hst) (params (Type c))"

definition captured :: "host \<Rightarrow> val \<Rightarrow> entry" where
  "captured hst c = \<lparr>fn = c, args = deps hst c\<rparr>"


text \<open>The flag set as a value, and the store of the example after both Capture stages.\<close>

definition fs_value :: val where
  "fs_value = VPtr (TNamed ''flag.FlagSet'') 0"

definition demo_store :: store where
  "demo_store = [\<lparr>fn = logfx_ctor, args = [fs_value]\<rparr>, \<lparr>fn = verfx_ctor, args = [fs_value]\<rparr>]"

text \<open>The values a Release-stage closure returns for an entry from the map \<open>m\<close>, and the
  values a constructor call returns in a state (none when it panics).\<close>

definition outs_of :: "parsed \<Rightarrow> eref \<Rightarrow> val list" where
  "outs_of m e = (case m e of None \<Rightarrow> [] | Some outs \<Rightarrow> outs)"

definition outputs_at :: "'x runtime \<Rightarrow> val \<Rightarrow> val list \<Rightarrow> 'x \<Rightarrow> val list" where
  "outputs_at rt c avs x = (case Call rt c avs x of Inl _ \<Rightarrow> [] | Inr (outs, _) \<Rightarrow> outs)"

text \<open>What a constructor call returns, or the panic, leaving out the state it leaves.\<close>

definition returned :: "'x runtime \<Rightarrow> val \<Rightarrow> val list \<Rightarrow> 'x \<Rightarrow> panic + val list" where
  "returned rt c avs x = map_sum id fst (Call rt c avs x)"

text \<open>
  Mutual independence of the constructors \<open>cs\<close>: running one of them never changes what a
  different one returns when called with the values the host passes to it. The same
  condition, read off the store for a list of entries.
\<close>

definition mutually_independent :: "'x runtime \<Rightarrow> host \<Rightarrow> val list \<Rightarrow> bool" where
  "mutually_independent rt hst cs =
     (\<forall>c\<in>set cs. \<forall>d\<in>set cs. c \<noteq> d \<longrightarrow>
        (\<forall>x outs x'. Call rt d (deps hst d) x = Inr (outs, x') \<longrightarrow>
           returned rt c (deps hst c) x' = returned rt c (deps hst c) x))"

definition independent_entries :: "'x runtime \<Rightarrow> store \<Rightarrow> eref list \<Rightarrow> bool" where
  "independent_entries rt h es =
     (\<forall>e\<in>set es. \<forall>d\<in>set es. e \<noteq> d \<longrightarrow>
        (\<forall>x outs x'. Call rt (fn (h ! d)) (args (h ! d)) x = Inr (outs, x') \<longrightarrow>
           returned rt (fn (h ! e)) (args (h ! e)) x' = returned rt (fn (h ! e)) (args (h ! e)) x))"

text \<open>A second host for the example: it hands the group to the barrier in registration
  order, where \<open>demo_host\<close> hands it over reversed.\<close>

definition demo_host_fifo :: host where
  "demo_host_fifo = \<lparr>resolved = (\<lambda>t. VPtr (TNamed ''flag.FlagSet'') 0), shuffle = (\<lambda>es. es)\<rparr>"

section \<open>Registration: what \<^verbatim>\<open>Provide\<close> returns\<close>

lemma collect_params: "collect_types (NumIn t) (In t) = params t"
  unfolding collect_types_def NumIn_def In_def by (rule map_nth)

lemma collect_results: "collect_types (NumOut t) (Out t) = results t"
  unfolding collect_types_def NumOut_def Out_def by (rule map_nth)

lemma Provide_loop_eq:
  "Provide_loop cs opts h =
     (opts @ map (\<lambda>(e, c). fx_Provide (providers_for e c)) (enumerate (length h) (takeWhile is_func cs))
           @ (if list_all is_func cs then [] else [fx_Error not_a_function]),
      h @ map new_entry (takeWhile is_func cs))"
proof (induction cs arbitrary: opts h)
  case Nil
  show ?case by simp
next
  case (Cons c cs)
  show ?case
  proof (cases "is_func c")
    case False
    then show ?thesis by (simp add: is_func_def not_a_function_def)
  next
    case True
    then show ?thesis
      using Cons.IH [of "opts @ [fx_Provide (providers_for (length h) c)]" "h @ [new_entry c]"]
      by (simp add: is_func_def collect_params collect_results providers_for_def new_entry_def
          FuncOf_def resultTypes_def parsedPtrTypes_def Let_def)
  qed
qed

lemma Provide_eq:
  "Provide cs h =
     (fx_Options (map (\<lambda>(e, c). fx_Provide (providers_for e c)) (enumerate (length h) (takeWhile is_func cs))
           @ (if list_all is_func cs then [] else [fx_Error not_a_function])),
      h @ map new_entry (takeWhile is_func cs))"
  by (simp add: Provide_def Provide_loop_eq)

lemma provided_pairs:
  "concat (map (provided \<circ> (\<lambda>(e, c). fx_Provide (providers_for e c))) xs) =
     concat (map (\<lambda>(e, c). providers_for e c) xs)"
  by (induction xs) auto

lemma errors_pairs:
  "concat (map (option_errors \<circ> (\<lambda>(e, c). fx_Provide (providers_for e c))) xs) = []"
  by (induction xs) auto

lemma provided_Provide:
  "provided (fst (Provide cs h)) =
     concat (map (\<lambda>(e, c). providers_for e c) (enumerate (length h) (takeWhile is_func cs)))"
  by (simp add: Provide_eq provided_pairs)

lemma errors_Provide:
  "option_errors (fst (Provide cs h)) = (if list_all is_func cs then [] else [not_a_function])"
  by (simp add: Provide_eq errors_pairs)

lemma store_Provide:
  "snd (Provide cs h) = h @ map new_entry (takeWhile is_func cs)"
  by (simp add: Provide_eq)


lemma invoke_Fn1:
  "lookup h e = Some en \<Longrightarrow> NumOut t = 1 \<Longrightarrow>
     invoke (MakeFunc t (Fn1 e)) avs h = Inr ([VResult e], h[e := en\<lparr>args := avs\<rparr>])"
  by (simp add: invoke_def fn1_def)

section \<open>The barrier's loop\<close>

lemma emit_simps [simp]:
  "heap (emit ev w) = heap w" "ext (emit ev w) = ext w" "trace (emit ev w) = trace w @ [ev]"
  by (simp_all add: emit_def)

lemma call_entries_Cons_Inr:
  assumes "call_entries rt (e # es) m w = (Inr m', w')"
  obtains outs x' where "e < length (heap w)"
    and "Call rt (fn (heap w ! e)) (args (heap w ! e)) (ext w) = Inr (outs, x')"
    and "call_entries rt es (m(e \<mapsto> outs)) ((emit (construct_event (heap w) e) w)\<lparr>ext := x'\<rparr>) = (Inr m', w')"
  using assms
  by (auto simp: Let_def lookup_def construct_event_def split: option.splits sum.splits if_splits)


lemma call_entries_heap:
  "call_entries rt es m w = (r, w') \<Longrightarrow> heap w' = heap w"
proof (induction es arbitrary: m w)
  case Nil
  then show ?case by simp
next
  case (Cons e es)
  then show ?case
    by (auto simp: Let_def split: option.splits sum.splits)
qed

lemma call_entries_append:
  "call_entries rt (xs @ ys) m w =
     (case call_entries rt xs m w of
        (Inl p, w1) \<Rightarrow> (Inl p, w1)
      | (Inr m1, w1) \<Rightarrow> call_entries rt ys m1 w1)"
  by (induction xs arbitrary: m w) (auto simp: Let_def split: option.splits sum.splits)

lemma call_entries_keep:
  "call_entries rt es m w = (Inr m', w') \<Longrightarrow> e \<notin> set es \<Longrightarrow> m' e = m e"
  by (induction es arbitrary: m w) (auto simp: Let_def split: option.splits sum.splits)



lemma call_entries_actions:
  "call_entries rt es m w = (r, w') \<Longrightarrow> filter is_action (trace w') = filter is_action (trace w)"
  by (induction es arbitrary: m w) (auto simp: Let_def split: option.splits sum.splits)

lemma call_entries_releases:
  "call_entries rt es m w = (r, w') \<Longrightarrow> filter is_release (trace w') = filter is_release (trace w)"
  by (induction es arbitrary: m w) (auto simp: Let_def split: option.splits sum.splits)




lemma parse_actions:
  "length (filter is_action (trace (snd (parse rt fs argv es w)))) \<le> length (filter is_action (trace w)) + 1"
proof -
  obtain r w1 where ce: "call_entries rt es Map.empty w = (r, w1)" by (cases "call_entries rt es Map.empty w")
  from call_entries_actions [OF ce] show ?thesis
    by (auto simp: parse_def ce Let_def split: sum.splits prod.splits option.splits)
qed

section \<open>The stages of a resolution pass\<close>

lemma run_captures_events:
  "\<exists>t. trace (snd (run_captures hst fs w)) = trace w @ t \<and> list_all is_capture_event t"
proof (induction fs arbitrary: w)
  case Nil
  show ?case by simp
next
  case (Cons f fs)
  show ?case
  proof (cases "closure_of f")
    case (Fn2 e)
    with Cons.IH [of w] show ?thesis by simp
  next
    case (Fn1 e)
    let ?avs = "map (resolved hst) (params (typ_of f))"
    show ?thesis
    proof (cases "invoke f ?avs (heap w)")
      case (Inl p)
      with Fn1 show ?thesis by simp
    next
      case (Inr r)
      obtain outs h' where r: "r = (outs, h')" by (cases r)
      let ?w = "emit (EvCapture e ?avs) (w\<lparr>heap := h'\<rparr>)"
      from Cons.IH [of ?w] obtain t
        where t: "trace (snd (run_captures hst fs ?w)) = trace w @ EvCapture e ?avs # t"
          and a: "list_all is_capture_event t" by auto
      have "snd (run_captures hst (f # fs) w) = snd (run_captures hst fs ?w)"
        using Fn1 Inr r by (simp split: prod.splits sum.splits)
      with t a show ?thesis by simp
    qed
  qed
qed

lemma run_releases_events:
  "\<exists>t. trace (snd (run_releases fs pm w)) = trace w @ t \<and> list_all is_release t"
proof (induction fs arbitrary: w)
  case Nil
  show ?case by simp
next
  case (Cons f fs)
  show ?case
  proof (cases "closure_of f")
    case (Fn1 e)
    with Cons.IH [of w] show ?thesis by simp
  next
    case (Fn2 e)
    show ?thesis
    proof (cases "invoke f [VParsed pm] (heap w)")
      case (Inl p)
      with Fn2 show ?thesis by simp
    next
      case (Inr r)
      obtain outs h' where r: "r = (outs, h')" by (cases r)
      let ?w = "emit (EvRelease e outs) (w\<lparr>heap := h'\<rparr>)"
      from Cons.IH [of ?w] obtain t
        where t: "trace (snd (run_releases fs pm ?w)) = trace w @ EvRelease e outs # t"
          and a: "list_all is_release t" by auto
      have "snd (run_releases (f # fs) pm w) = snd (run_releases fs pm ?w)"
        using Fn2 Inr r by (simp split: prod.splits sum.splits)
      with t a show ?thesis by simp
    qed
  qed
qed

lemma filter_none:
  "list_all Q t \<Longrightarrow> (\<And>ev. Q ev \<Longrightarrow> \<not> P ev) \<Longrightarrow> filter P t = []"
  by (induction t) auto

lemma run_captures_actions:
  "filter is_action (trace (snd (run_captures hst fs w))) = filter is_action (trace w)"
proof -
  obtain t where "trace (snd (run_captures hst fs w)) = trace w @ t" and "list_all is_capture_event t"
    using run_captures_events by blast
  moreover have "filter is_action t = []"
    by (rule filter_none [OF \<open>list_all is_capture_event t\<close>])
       (auto elim: is_capture_event.elims)
  ultimately show ?thesis by simp
qed

lemma run_captures_releases:
  "filter is_release (trace (snd (run_captures hst fs w))) = filter is_release (trace w)"
proof -
  obtain t where "trace (snd (run_captures hst fs w)) = trace w @ t" and "list_all is_capture_event t"
    using run_captures_events by blast
  moreover have "filter is_release t = []"
    by (rule filter_none [OF \<open>list_all is_capture_event t\<close>])
       (auto elim: is_capture_event.elims)
  ultimately show ?thesis by simp
qed

lemma run_releases_actions:
  "filter is_action (trace (snd (run_releases fs pm w))) = filter is_action (trace w)"
proof -
  obtain t where "trace (snd (run_releases fs pm w)) = trace w @ t" and "list_all is_release t"
    using run_releases_events by blast
  moreover have "filter is_action t = []"
    by (rule filter_none [OF \<open>list_all is_release t\<close>]) (auto elim: is_release.elims)
  ultimately show ?thesis by simp
qed

lemma resolve_actions:
  "length (filter is_action (trace (snd (resolve rt hst opt fs argv w))))
     \<le> length (filter is_action (trace w)) + 1"
proof (cases "option_errors opt")
  case (Cons msg rest)
  then show ?thesis by (simp add: resolve_def)
next
  case Nil
  obtain r1 w1 where c: "run_captures hst (provided opt) w = (r1, w1)"
    by (cases "run_captures hst (provided opt) w")
  have a1: "filter is_action (trace w1) = filter is_action (trace w)"
    using run_captures_actions [of hst "provided opt" w] c by simp
  show ?thesis
  proof (cases r1)
    case (Inl p)
    with Nil c a1 show ?thesis by (simp add: resolve_def)
  next
    case (Inr es)
    obtain r2 w2 where p: "parse rt fs argv (shuffle hst es) w1 = (r2, w2)"
      by (cases "parse rt fs argv (shuffle hst es) w1")
    have a2: "length (filter is_action (trace w2)) \<le> length (filter is_action (trace w)) + 1"
      using parse_actions [of rt fs argv "shuffle hst es" w1] p a1 by simp
    show ?thesis
    proof (cases r2)
      case (Inl q)
      with Nil c Inr p a2 show ?thesis by (simp add: resolve_def)
    next
      case r2: (Inr pr)
      obtain pm err where pr: "pr = (pm, err)" by (cases pr)
      show ?thesis
      proof (cases err)
        case (Some e)
        with Nil c Inr p r2 pr a2 show ?thesis by (simp add: resolve_def)
      next
        case None
        obtain r3 w3 where rl: "run_releases (provided opt) pm w2 = (r3, w3)"
          by (cases "run_releases (provided opt) pm w2")
        have "filter is_action (trace w3) = filter is_action (trace w2)"
          using run_releases_actions [of "provided opt" pm w2] rl by simp
        with Nil c Inr p r2 pr None rl a2 show ?thesis
          by (simp add: resolve_def split: sum.splits)
      qed
    qed
  qed
qed

lemma run_captures_Provide:
  "heap w = h0 @ map (captured hst) dn @ map new_entry cs \<Longrightarrow>
   run_captures hst (concat (map (\<lambda>(e, c). providers_for e c) (enumerate (length h0 + length dn) cs))) w
     = (Inr [length h0 + length dn..<length h0 + length dn + length cs],
        w\<lparr>heap := h0 @ map (captured hst) (dn @ cs),
          trace := trace w @ map (\<lambda>(e, c). EvCapture e (deps hst c)) (enumerate (length h0 + length dn) cs)\<rparr>)"
proof (induction cs arbitrary: dn w)
  case Nil
  then show ?case by simp
next
  case (Cons c cs)
  let ?e = "length h0 + length dn"
  let ?avs = "deps hst c"
  let ?h' = "h0 @ map (captured hst) (dn @ [c]) @ map new_entry cs"
  let ?w' = "emit (EvCapture ?e ?avs) (w\<lparr>heap := ?h'\<rparr>)"
  let ?rest = "concat (map (\<lambda>(e, c). providers_for e c) (enumerate (Suc ?e) cs))"
  have lk: "lookup (heap w) ?e = Some (new_entry c)"
    by (simp add: Cons.prems lookup_def nth_append)
  have upd: "(heap w)[?e := (new_entry c)\<lparr>args := ?avs\<rparr>] = ?h'"
    by (simp add: Cons.prems list_update_append captured_def new_entry_def)
  have inv: "invoke (MakeFunc (TFunc (params (Type c)) [resultType] False) (Fn1 ?e)) ?avs (heap w)
               = Inr ([VResult ?e], ?h')"
    using invoke_Fn1 [OF lk, of "TFunc (params (Type c)) [resultType] False" ?avs] upd
    by (simp add: NumOut_def)
  have step: "run_captures hst (concat (map (\<lambda>(e, c). providers_for e c) (enumerate ?e (c # cs)))) w
        = (case run_captures hst ?rest ?w' of
             (Inl p, w') \<Rightarrow> (Inl p, w')
           | (Inr es, w') \<Rightarrow> (Inr (?e # es), w'))"
    using inv by (simp add: providers_for_def deps_def split: prod.splits sum.splits)
  have hw': "heap ?w' = h0 @ map (captured hst) (dn @ [c]) @ map new_entry cs" by simp
  have ih: "run_captures hst ?rest ?w'
     = (Inr [Suc ?e..<Suc ?e + length cs],
        ?w'\<lparr>heap := h0 @ map (captured hst) ((dn @ [c]) @ cs),
          trace := trace ?w' @ map (\<lambda>(e, c). EvCapture e (deps hst c)) (enumerate (Suc ?e) cs)\<rparr>)"
    using Cons.IH [of ?w' "dn @ [c]"] hw' by simp
  have upt: "[?e..<?e + Suc (length cs)] = ?e # [Suc ?e..<Suc (?e + length cs)]"
    by (subst upt_rec) simp
  show ?case unfolding step ih using upt by (simp add: emit_def del: upt_Suc)
qed

lemma run_releases_Provide:
  "run_releases (concat (map (\<lambda>(e, c). providers_for e c) xs)) (Some m) w = (Inr rs, w') \<Longrightarrow>
     rs = map (\<lambda>(e, c). (e, outs_of m e)) xs"
proof (induction xs arbitrary: w rs)
  case Nil
  then show ?case by simp
next
  case (Cons x xs)
  obtain e c where x: "x = (e, c)" by (cases x)
  let ?rest = "concat (map (\<lambda>(e, c). providers_for e c) xs)"
  from Cons.prems obtain h' rs' where
    inv: "invoke (MakeFunc (TFunc [parsedPtrType] (results (Type c)) False) (Fn2 e)) [VParsed (Some m)] (heap w)
            = Inr (outs_of m e, h')"
    and rest: "run_releases ?rest (Some m) (emit (EvRelease e (outs_of m e)) (w\<lparr>heap := h'\<rparr>)) = (Inr rs', w')"
    and rs: "rs = (e, outs_of m e) # rs'"
    by (auto simp: x providers_for_def invoke_def fn2_def outs_of_def
        split: sum.splits prod.splits if_splits option.splits)
  from Cons.IH [OF rest] rs show ?case by (simp add: x)
qed







lemma resolve_StartedD:
  assumes "resolve rt hst opt fs argv w = (Started rs, w')"
    and "option_errors opt = []"
    and "run_captures hst (provided opt) w = (Inr es, w1)"
  obtains pm w2 where "parse rt fs argv (shuffle hst es) w1 = (Inr (pm, None), w2)"
    and "run_releases (provided opt) pm w2 = (Inr rs, w')"
proof -
  obtain r2 w2 where p: "parse rt fs argv (shuffle hst es) w1 = (r2, w2)"
    by (cases "parse rt fs argv (shuffle hst es) w1")
  have r: "resolve rt hst opt fs argv w =
        (case r2 of
           Inl p \<Rightarrow> (Panicked p, w2)
         | Inr (pm, Some err) \<Rightarrow> (StartupFailed err, w2)
         | Inr (pm, None) \<Rightarrow>
             (case run_releases (provided opt) pm w2 of
                (Inl p, w3) \<Rightarrow> (Panicked p, w3)
              | (Inr rs, w3) \<Rightarrow> (Started rs, w3)))"
    using assms(2,3) p by (simp add: resolve_def)
  show thesis
  proof (cases r2)
    case (Inl q)
    with r assms(1) show thesis by simp
  next
    case (Inr pr)
    obtain pm err where pr: "pr = (pm, err)" by (cases pr)
    show thesis
    proof (cases err)
      case (Some e)
      with r assms(1) Inr pr show thesis by simp
    next
      case None
      obtain r3 w3 where rl: "run_releases (provided opt) pm w2 = (r3, w3)"
        by (cases "run_releases (provided opt) pm w2")
      show thesis
      proof (cases r3)
        case (Inl q)
        with r assms(1) Inr pr None rl show thesis by simp
      next
        case r3: (Inr rs3)
        with r assms(1) Inr pr None rl have "rs3 = rs" "w3 = w'" by simp_all
        with that p Inr pr None rl r3 show thesis by simp
      qed
    qed
  qed
qed

lemma parse_no_errorD:
  assumes "parse rt fs argv es w = (Inr (pm, None), w2)"
  obtains m w3 where "pm = Some m" and "call_entries rt es Map.empty w = (Inr m, w3)"
proof -
  obtain r1 w1 where ce: "call_entries rt es Map.empty w = (r1, w1)"
    by (cases "call_entries rt es Map.empty w")
  show thesis
  proof (cases r1)
    case (Inl p)
    with assms ce show thesis by (simp add: parse_def)
  next
    case (Inr m)
    obtain err x' where ps: "Parse rt fs argv (ext w1) = (err, x')"
      by (cases "Parse rt fs argv (ext w1)")
    have "pm = Some m"
      using assms ce Inr ps by (cases err; cases "Parsed rt fs (ext w1)") (simp_all add: parse_def Let_def)
    with that ce Inr show thesis by simp
  qed
qed

section \<open>Independent constructors\<close>

lemma independent_entriesD:
  assumes "independent_entries rt h es" and "e \<in> set es" and "d \<in> set es" and "e \<noteq> d"
    and "Call rt (fn (h ! d)) (args (h ! d)) x = Inr (outs, x')"
  shows "returned rt (fn (h ! e)) (args (h ! e)) x' = returned rt (fn (h ! e)) (args (h ! e)) x"
proof -
  from assms(1) have "\<forall>d\<in>set es. e \<noteq> d \<longrightarrow>
        (\<forall>x outs x'. Call rt (fn (h ! d)) (args (h ! d)) x = Inr (outs, x') \<longrightarrow>
           returned rt (fn (h ! e)) (args (h ! e)) x' = returned rt (fn (h ! e)) (args (h ! e)) x)"
    unfolding independent_entries_def using assms(2) by (rule bspec)
  then have "e \<noteq> d \<longrightarrow>
        (\<forall>x outs x'. Call rt (fn (h ! d)) (args (h ! d)) x = Inr (outs, x') \<longrightarrow>
           returned rt (fn (h ! e)) (args (h ! e)) x' = returned rt (fn (h ! e)) (args (h ! e)) x)"
    using assms(3) by (rule bspec)
  with assms(4) have "\<forall>x outs x'. Call rt (fn (h ! d)) (args (h ! d)) x = Inr (outs, x') \<longrightarrow>
           returned rt (fn (h ! e)) (args (h ! e)) x' = returned rt (fn (h ! e)) (args (h ! e)) x"
    by (rule rev_mp)
  then show ?thesis using assms(5) by (elim allE impE)
qed

lemma independent_entries_tail:
  "independent_entries rt h (a # es) \<Longrightarrow> independent_entries rt h es"
  unfolding independent_entries_def by (intro ballI) (simp only: list.set insert_iff ball_simps, fast)

lemma outputs_at_cong:
  "returned rt c avs x' = returned rt c avs x \<Longrightarrow> outputs_at rt c avs x' = outputs_at rt c avs x"
  by (cases "Call rt c avs x'"; cases "Call rt c avs x") (auto simp: outputs_at_def returned_def)

lemma call_entries_independent:
  assumes "call_entries rt es m w = (Inr m', w')" and "distinct es"
    and "independent_entries rt (heap w) es" and "e \<in> set es"
  shows "m' e = Some (outputs_at rt (fn (heap w ! e)) (args (heap w ! e)) (ext w))"
  using assms
proof (induction es arbitrary: m w)
  case Nil
  then show ?case by simp
next
  case (Cons a es)
  from Cons.prems(1) obtain outs x'
    where c: "Call rt (fn (heap w ! a)) (args (heap w ! a)) (ext w) = Inr (outs, x')"
      and rest: "call_entries rt es (m(a \<mapsto> outs)) ((emit (construct_event (heap w) a) w)\<lparr>ext := x'\<rparr>) = (Inr m', w')"
    by (rule call_entries_Cons_Inr)
  let ?w = "(emit (construct_event (heap w) a) w)\<lparr>ext := x'\<rparr>"
  have a: "a \<notin> set es" and d: "distinct es" using Cons.prems(2) by simp_all
  have hw: "heap ?w = heap w" and xw: "ext ?w = x'" by simp_all
  show ?case
  proof (cases "e = a")
    case True
    have "m' a = (m(a \<mapsto> outs)) a" using rest a by (rule call_entries_keep)
    then show ?thesis using c True by (simp add: outputs_at_def)
  next
    case False
    with Cons.prems(4) have e: "e \<in> set es" by simp
    have ind: "independent_entries rt (heap ?w) es"
      unfolding hw using Cons.prems(3) by (rule independent_entries_tail)
    have "m' e = Some (outputs_at rt (fn (heap ?w ! e)) (args (heap ?w ! e)) (ext ?w))"
      using rest d ind e by (rule Cons.IH)
    then have ih: "m' e = Some (outputs_at rt (fn (heap w ! e)) (args (heap w ! e)) x')"
      unfolding hw xw .
    have "returned rt (fn (heap w ! e)) (args (heap w ! e)) x'
            = returned rt (fn (heap w ! e)) (args (heap w ! e)) (ext w)"
      using Cons.prems(3) _ _ False c by (rule independent_entriesD) (use e in simp_all)
    then have "outputs_at rt (fn (heap w ! e)) (args (heap w ! e)) x'
            = outputs_at rt (fn (heap w ! e)) (args (heap w ! e)) (ext w)"
      by (rule outputs_at_cong)
    with ih show ?thesis by simp
  qed
qed

lemma perm_upt_distinct:
  assumes "mset ys = mset [b..<b + n]"
  shows "distinct (ys::nat list)"
proof -
  have "distinct [b..<b + n]" by simp
  with assms show ?thesis using mset_eq_imp_distinct_iff by blast
qed

lemma captured_independent:
  assumes dist: "distinct cs" and ind: "mutually_independent rt hst cs"
    and sub: "set es \<subseteq> set [length h0..<length h0 + length cs]"
  shows "independent_entries rt (h0 @ map (captured hst) cs) es"
  unfolding independent_entries_def
proof (intro ballI impI allI)
  fix e d x outs x'
  let ?b = "length h0"
  let ?hc = "h0 @ map (captured hst) cs"
  assume e: "e \<in> set es" and d: "d \<in> set es" and ne: "e \<noteq> d"
    and c: "Call rt (fn (?hc ! d)) (args (?hc ! d)) x = Inr (outs, x')"
  from sub e have "e \<in> set [?b..<?b + length cs]" by (rule subsetD)
  then have be: "?b \<le> e" "e - ?b < length cs" by auto
  from sub d have "d \<in> set [?b..<?b + length cs]" by (rule subsetD)
  then have bd: "?b \<le> d" "d - ?b < length cs" by auto
  have ne': "cs ! (e - ?b) \<noteq> cs ! (d - ?b)"
  proof
    assume "cs ! (e - ?b) = cs ! (d - ?b)"
    with dist be(2) bd(2) have "e - ?b = d - ?b" by (simp add: nth_eq_iff_index_eq)
    with be(1) bd(1) ne show False by simp
  qed
  have he: "?hc ! e = captured hst (cs ! (e - ?b))" and hd: "?hc ! d = captured hst (cs ! (d - ?b))"
    using be bd by (simp_all add: nth_append)
  have ine: "cs ! (e - ?b) \<in> set cs" and ind': "cs ! (d - ?b) \<in> set cs"
    using be(2) bd(2) by simp_all
  have c': "Call rt (cs ! (d - ?b)) (deps hst (cs ! (d - ?b))) x = Inr (outs, x')"
    using c by (simp add: hd captured_def)
  from ind have "\<forall>d\<in>set cs. cs ! (e - ?b) \<noteq> d \<longrightarrow>
        (\<forall>x outs x'. Call rt d (deps hst d) x = Inr (outs, x') \<longrightarrow>
           returned rt (cs ! (e - ?b)) (deps hst (cs ! (e - ?b))) x'
             = returned rt (cs ! (e - ?b)) (deps hst (cs ! (e - ?b))) x)"
    unfolding mutually_independent_def using ine by (rule bspec)
  then have "cs ! (e - ?b) \<noteq> cs ! (d - ?b) \<longrightarrow>
        (\<forall>x outs x'. Call rt (cs ! (d - ?b)) (deps hst (cs ! (d - ?b))) x = Inr (outs, x') \<longrightarrow>
           returned rt (cs ! (e - ?b)) (deps hst (cs ! (e - ?b))) x'
             = returned rt (cs ! (e - ?b)) (deps hst (cs ! (e - ?b))) x)"
    using ind' by (rule bspec)
  with ne' have "\<forall>x outs x'. Call rt (cs ! (d - ?b)) (deps hst (cs ! (d - ?b))) x = Inr (outs, x') \<longrightarrow>
           returned rt (cs ! (e - ?b)) (deps hst (cs ! (e - ?b))) x'
             = returned rt (cs ! (e - ?b)) (deps hst (cs ! (e - ?b))) x"
    by (rule rev_mp)
  then have "returned rt (cs ! (e - ?b)) (deps hst (cs ! (e - ?b))) x'
             = returned rt (cs ! (e - ?b)) (deps hst (cs ! (e - ?b))) x"
    using c' by (elim allE impE)
  then show "returned rt (fn (?hc ! e)) (args (?hc ! e)) x' = returned rt (fn (?hc ! e)) (args (?hc ! e)) x"
    by (simp add: he captured_def)
qed

lemma pass_outputs:
  assumes funcs: "list_all is_func cs"
    and dist: "distinct cs"
    and perm: "mset (shuffle hst [length h0..<length h0 + length cs]) = mset [length h0..<length h0 + length cs]"
    and ind: "mutually_independent rt hst cs"
    and hw: "heap w = snd (Provide cs h0)"
    and res: "resolve rt hst (fst (Provide cs h0)) fs argv w = (Started rs, w')"
  shows "map snd rs = map (\<lambda>c. outputs_at rt c (deps hst c) (ext w)) cs"
proof -
  let ?opt = "fst (Provide cs h0)"
  let ?b = "length h0"
  let ?es = "[?b..<?b + length cs]"
  let ?ses = "shuffle hst ?es"
  let ?hc = "h0 @ map (captured hst) cs"
  let ?w1 = "w\<lparr>heap := ?hc, trace := trace w @ map (\<lambda>(e, c). EvCapture e (deps hst c)) (enumerate ?b cs)\<rparr>"
  let ?F = "\<lambda>c. outputs_at rt c (deps hst c) (ext w)"
  have tw: "takeWhile is_func cs = cs" using funcs by (simp add: list_all_iff)
  have errs: "option_errors ?opt = []" using funcs by (simp add: errors_Provide)
  have prov: "provided ?opt = concat (map (\<lambda>(e, c). providers_for e c) (enumerate ?b cs))"
    by (simp add: provided_Provide tw)
  have hw': "heap w = h0 @ map (captured hst) [] @ map new_entry cs"
    using hw by (simp add: store_Provide tw)
  have caps: "run_captures hst (provided ?opt) w = (Inr ?es, ?w1)"
    using run_captures_Provide [OF hw'] by (simp add: prov)
  from res errs caps obtain pm w2
    where p: "parse rt fs argv ?ses ?w1 = (Inr (pm, None), w2)"
      and rl: "run_releases (provided ?opt) pm w2 = (Inr rs, w')"
    by (rule resolve_StartedD)
  from p obtain m w3 where pm: "pm = Some m"
    and ce: "call_entries rt ?ses Map.empty ?w1 = (Inr m, w3)"
    by (rule parse_no_errorD)
  have set_ses: "set ?ses = set ?es" using perm by (rule mset_eq_setD)
  have dist_ses: "distinct ?ses" using perm by (rule perm_upt_distinct)
  have h1: "heap ?w1 = ?hc" and x1: "ext ?w1 = ext w" by simp_all
  have ind': "independent_entries rt (heap ?w1) ?ses"
    unfolding h1 using dist ind by (rule captured_independent) (simp add: set_ses)
  have vals: "outs_of m (?b + i) = ?F (cs ! i)" if i: "i < length cs" for i
  proof -
    have e: "?b + i \<in> set ?ses" using i set_ses by simp
    have "m (?b + i) = Some (outputs_at rt (fn (heap ?w1 ! (?b + i))) (args (heap ?w1 ! (?b + i))) (ext ?w1))"
      using ce dist_ses ind' e by (rule call_entries_independent)
    moreover have "?hc ! (?b + i) = captured hst (cs ! i)" using i by (simp add: nth_append)
    ultimately show ?thesis unfolding h1 x1 by (simp add: captured_def outs_of_def)
  qed
  have rs: "rs = map (\<lambda>(e, c). (e, outs_of m e)) (enumerate ?b cs)"
    using rl unfolding prov pm by (rule run_releases_Provide)
  show ?thesis
  proof (rule nth_equalityI)
    show "length (map snd rs) = length (map ?F cs)" by (simp add: rs)
  next
    fix i assume "i < length (map snd rs)"
    then have i: "i < length cs" by (simp add: rs)
    from vals [OF i] show "map snd rs ! i = map ?F cs ! i"
      using i by (simp add: rs nth_enumerate_eq)
  qed
qed

section \<open>Evaluation of the example\<close>

lemmas demo_defs = demo_rt_def demo_host_def demo_world_def demo_store_def fs_value_def
  logfx_ctor_def verfx_ctor_def flagSetPtr_def demo_Parse_def

lemmas reg_defs = Provide_def collect_types_def NumIn_def NumOut_def In_def Out_def FuncOf_def
  resultTypes_def parsedPtrTypes_def Let_def

lemmas run_defs = invoke_def fn1_def fn2_def lookup_def emit_def parse_def resolve_def

section \<open>The claims\<close>



text \<open>
  C2. Round trip. Let the barrier return a \<^verbatim>\<open>*parsed\<close> for the entries
  \<open>pre @ e # post\<close>, where \<open>e\<close> does not occur again after its position. Then the
  Release-stage closure of \<open>e\<close>, applied to that \<^verbatim>\<open>*parsed\<close>, returns exactly the values
  that calling the constructor of \<open>e\<close> with the captured arguments of \<open>e\<close> returned, in
  the state the barrier had reached when it came to \<open>e\<close>.
\<close>

theorem release_returns_constructor_results:
  assumes "parse rt fs argv (pre @ e # post) w = (Inr (Some m, None), w')" and "e \<notin> set post"
  shows "\<exists>en m1 w1 outs x'.
           lookup (heap w) e = Some en
         \<and> call_entries rt pre Map.empty w = (Inr m1, w1)
         \<and> Call rt (fn en) (args en) (ext w1) = Inr (outs, x')
         \<and> fn2 e [VParsed (Some m)] = Inr outs"
proof -
  from assms(1) obtain w2 where all: "call_entries rt (pre @ e # post) Map.empty w = (Inr m, w2)"
    by (auto simp: parse_def Let_def split: prod.splits sum.splits if_splits option.splits)
  then obtain m1 w1 where pre: "call_entries rt pre Map.empty w = (Inr m1, w1)"
    and rest: "call_entries rt (e # post) m1 w1 = (Inr m, w2)"
    by (auto simp: call_entries_append split: prod.splits sum.splits)
  have hp: "heap w1 = heap w" using call_entries_heap [OF pre] .
  from rest obtain en outs x'
    where en: "lookup (heap w1) e = Some en"
      and c: "Call rt (fn en) (args en) (ext w1) = Inr (outs, x')"
      and post: "call_entries rt post (m1(e \<mapsto> outs)) ((emit (EvConstruct e (fn en) (args en)) w1)\<lparr>ext := x'\<rparr>) = (Inr m, w2)"
    by (auto simp: Let_def split: option.splits sum.splits)
  have "m e = Some outs" using call_entries_keep [OF post assms(2)] by simp
  then have "fn2 e [VParsed (Some m)] = Inr outs" by (simp add: fn2_def)
  with en c pre hp show ?thesis by auto
qed

theorem release_returns_constructor_results_witness:
  "1 \<notin> set ([]::nat list)
   \<and> fn2 1 [VParsed (fst (projr (fst (parse demo_rt 0 [''version''] ([0] @ 1 # []) (demo_world demo_store False)))))]
      = Inr [VPtr (TNamed ''verfx.flags'') 1]"
proof -
  let ?r = "parse demo_rt 0 [''version''] ([0] @ 1 # []) (demo_world demo_store False)"
  have h1: "?r = (Inr (Some (the (fst (projr (fst ?r)))), None), snd ?r)"
    by (simp add: parse_def demo_defs lookup_def emit_def Let_def)
  have h2: "1 \<notin> set ([]::nat list)" by simp
  have p: "fst (projr (fst ?r)) = Some (the (fst (projr (fst ?r))))"
    by (simp add: parse_def demo_defs lookup_def emit_def Let_def)
  from release_returns_constructor_results [OF h1 h2] obtain en m1 w1 outs x' where
    "lookup (heap (demo_world demo_store False)) 1 = Some en"
    "call_entries demo_rt [0] Map.empty (demo_world demo_store False) = (Inr m1, w1)"
    "Call demo_rt (fn en) (args en) (ext w1) = Inr (outs, x')"
    "fn2 1 [VParsed (Some (the (fst (projr (fst ?r)))))] = Inr outs"
    by blast
  then have "fn2 1 [VParsed (Some (the (fst (projr (fst ?r)))))] = Inr [VPtr (TNamed ''verfx.flags'') 1]"
    by (auto simp: demo_defs lookup_def emit_def Let_def)
  then show ?thesis using p by simp
qed

text \<open>
  C3. In a resolution pass over the options of \<^verbatim>\<open>Provide\<close>, whatever the number of
  constructors, the trace gains at most one call of the flag set's \<^verbatim>\<open>Parse\<close>; and the
  barrier alone, on any list of entries, makes at most one such call.
\<close>

theorem action_at_most_once:
  "length (filter is_action (trace (snd (resolve rt hst (fst (Provide cs h)) fs argv w))))
     \<le> length (filter is_action (trace w)) + 1
   \<and> length (filter is_action (trace (snd (parse rt fs argv es w))))
     \<le> length (filter is_action (trace w)) + 1"
  using resolve_actions parse_actions by blast

text \<open>
  C4. Let a pass have no configuration error, let its Capture stages return the entries
  \<open>es\<close>, let the barrier's loop over them complete (every constructor ran), let the flag
  set be unparsed and let \<^verbatim>\<open>Parse\<close> return an error. Then the barrier returns the error
  and a nil \<^verbatim>\<open>*parsed\<close>, the pass ends as a failed startup that carries no outputs, and
  no Release-stage function has returned: the trace has no release event beyond those it
  started with.
\<close>

theorem action_failure_delivers_nothing:
  assumes "option_errors opt = []"
    and "run_captures hst (provided opt) w = (Inr es, w1)"
    and "call_entries rt (shuffle hst es) Map.empty w1 = (Inr m, w2)"
    and "\<not> Parsed rt fs (ext w2)"
    and "Parse rt fs argv (ext w2) = (Some err, x')"
  shows "parse rt fs argv (shuffle hst es) w1
           = (Inr (None, Some err), (emit (EvAction fs argv) w2)\<lparr>ext := x'\<rparr>)
       \<and> resolve rt hst opt fs argv w = (StartupFailed err, (emit (EvAction fs argv) w2)\<lparr>ext := x'\<rparr>)
       \<and> filter is_release (trace ((emit (EvAction fs argv) w2)\<lparr>ext := x'\<rparr>)) = filter is_release (trace w)"
proof -
  have p: "parse rt fs argv (shuffle hst es) w1
           = (Inr (None, Some err), (emit (EvAction fs argv) w2)\<lparr>ext := x'\<rparr>)"
    using assms(3-5) by (simp add: parse_def Let_def)
  have r: "resolve rt hst opt fs argv w = (StartupFailed err, (emit (EvAction fs argv) w2)\<lparr>ext := x'\<rparr>)"
    using assms(1,2) p by (simp add: resolve_def)
  have "filter is_release (trace w1) = filter is_release (trace w)"
    using run_captures_releases [of hst "provided opt" w] assms(2) by simp
  moreover have "filter is_release (trace w2) = filter is_release (trace w1)"
    using call_entries_releases [OF assms(3)] .
  ultimately show ?thesis using p r by simp
qed

theorem action_failure_delivers_nothing_witness:
  "option_errors (fst (Provide [logfx_ctor, verfx_ctor] [])) = []
   \<and> \<not> Parsed demo_rt 0 \<lparr>defined = [''version'', ''log-level''], was_parsed = False\<rparr>
   \<and> resolve demo_rt demo_host (fst (Provide [logfx_ctor, verfx_ctor] [])) 0 [''bogus'']
        (demo_world (snd (Provide [logfx_ctor, verfx_ctor] [])) False)
      = (StartupFailed ''flag provided but not defined'',
         \<lparr>heap = demo_store,
          ext = \<lparr>defined = [''version'', ''log-level''], was_parsed = True\<rparr>,
          trace = [EvCapture 0 [fs_value], EvCapture 1 [fs_value],
                   EvConstruct 1 verfx_ctor [fs_value], EvConstruct 0 logfx_ctor [fs_value],
                   EvAction 0 [''bogus'']]\<rparr>)"
proof -
  let ?opt = "fst (Provide [logfx_ctor, verfx_ctor] [])"
  let ?w = "demo_world (snd (Provide [logfx_ctor, verfx_ctor] [])) False"
  let ?w1 = "\<lparr>heap = demo_store, ext = \<lparr>defined = [], was_parsed = False\<rparr>,
              trace = [EvCapture 0 [fs_value], EvCapture 1 [fs_value]]\<rparr>"
  let ?w2 = "\<lparr>heap = demo_store, ext = \<lparr>defined = [''version'', ''log-level''], was_parsed = False\<rparr>,
              trace = [EvCapture 0 [fs_value], EvCapture 1 [fs_value],
                       EvConstruct 1 verfx_ctor [fs_value], EvConstruct 0 logfx_ctor [fs_value]]\<rparr>"
  let ?m = "[1 \<mapsto> [VPtr (TNamed ''verfx.flags'') 1], 0 \<mapsto> [VPtr (TNamed ''logfx.flags'') 0]]"
  have h1: "option_errors ?opt = []"
    by (simp add: reg_defs demo_defs)
  have h2: "run_captures demo_host (provided ?opt) ?w = (Inr [0, 1], ?w1)"
    by (simp add: reg_defs run_defs demo_defs)
  have h3: "call_entries demo_rt (shuffle demo_host [0, 1]) Map.empty ?w1 = (Inr ?m, ?w2)"
    by (simp add: run_defs demo_defs)
  have h4: "\<not> Parsed demo_rt 0 (ext ?w2)"
    by (simp add: demo_defs)
  have h5: "Parse demo_rt 0 [''bogus''] (ext ?w2)
              = (Some ''flag provided but not defined'',
                 \<lparr>defined = [''version'', ''log-level''], was_parsed = True\<rparr>)"
    by (simp add: demo_defs)
  from action_failure_delivers_nothing [OF h1 h2 h3 h4 h5] h1 show ?thesis
    by (simp add: emit_def demo_defs)
qed



text \<open>
  C6. If a value that is not a function is among the constructors given to
  \<^verbatim>\<open>Provide\<close>, the option returned carries exactly one error, the configuration error of
  the package; every function it provides belongs to an entry whose constructor is a
  function, so none was synthesized for that value; and a resolution pass over the option
  stops with the configuration error and leaves the world as it was: the barrier is not
  reached.
\<close>

theorem Provide_non_function_is_config_error:
  assumes "v \<in> set cs" and "\<not> is_func v"
  shows "option_errors (fst (Provide cs h)) = [not_a_function]
       \<and> (\<forall>f\<in>set (provided (fst (Provide cs h))).
            \<exists>e en. (closure_of f = Fn1 e \<or> closure_of f = Fn2 e)
                 \<and> lookup (snd (Provide cs h)) e = Some en \<and> is_func (fn en))
       \<and> resolve rt hst (fst (Provide cs h)) fs argv w = (ConfigError not_a_function, w)"
proof -
  have nall: "\<not> list_all is_func cs" using assms by (auto simp: list_all_iff)
  have errs: "option_errors (fst (Provide cs h)) = [not_a_function]"
    using nall by (simp add: errors_Provide)
  have provs: "\<exists>e en. (closure_of f = Fn1 e \<or> closure_of f = Fn2 e)
                 \<and> lookup (snd (Provide cs h)) e = Some en \<and> is_func (fn en)"
    if "f \<in> set (provided (fst (Provide cs h)))" for f
  proof -
    let ?fs = "takeWhile is_func cs"
    from that obtain e c where ec: "(e, c) \<in> set (enumerate (length h) ?fs)" and f: "f \<in> set (providers_for e c)"
      by (auto simp: provided_Provide)
    from ec have e: "length h \<le> e" "e < length h + length ?fs" and c: "c = ?fs ! (e - length h)"
      by (auto simp: in_set_enumerate_eq)
    have "c \<in> set ?fs" using e c by simp
    then have "is_func c" by (rule set_takeWhileD [THEN conjunct2])
    moreover have "lookup (snd (Provide cs h)) e = Some (new_entry c)"
      using e c by (simp add: store_Provide lookup_def nth_append)
    ultimately show ?thesis using f by (auto simp: providers_for_def new_entry_def)
  qed
  show ?thesis using errs provs by (simp add: resolve_def)
qed

theorem Provide_non_function_is_config_error_witness:
  "VInt 3 \<in> set [logfx_ctor, VInt 3, verfx_ctor] \<and> \<not> is_func (VInt 3)
   \<and> option_errors (fst (Provide [logfx_ctor, VInt 3, verfx_ctor] [])) = [not_a_function]
   \<and> resolve demo_rt demo_host (fst (Provide [logfx_ctor, VInt 3, verfx_ctor] [])) 0 [''version'']
        (demo_world [new_entry logfx_ctor] False)
      = (ConfigError not_a_function, demo_world [new_entry logfx_ctor] False)"
proof -
  have h1: "VInt 3 \<in> set [logfx_ctor, VInt 3, verfx_ctor]" by simp
  have h2: "\<not> is_func (VInt 3)" by (simp add: is_func_def)
  from Provide_non_function_is_config_error [OF h1 h2, of "[]" demo_rt demo_host 0 "[''version'']" "demo_world [new_entry logfx_ctor] False"] h1 h2
  show ?thesis by blast
qed




text \<open>
  C8, as stated, fails: the closure of \<^verbatim>\<open>fn2\<close> returns \<^verbatim>\<open>parsed.entries[e]\<close> without
  a presence check, so for an absent entry it returns the nil slice. For a constructor
  without results the synthesized function returns that to its caller silently.
\<close>

theorem fn2_absent_entry_counterexample:
  "fn2 0 [VParsed (Some Map.empty)] = Inr []
   \<and> invoke (provided (fst (Provide [noresult_ctor] [])) ! 1) [VParsed (Some Map.empty)]
        (snd (Provide [noresult_ctor] []))
      = Inr ([], snd (Provide [noresult_ctor] []))"
  by (simp add: Provide_def noresult_ctor_def collect_types_def NumIn_def
      NumOut_def In_def Out_def FuncOf_def Let_def fn2_def invoke_def)

text \<open>
  C8, amended. When the entry is absent from the map of the \<^verbatim>\<open>*parsed\<close> it receives, the
  closure of \<^verbatim>\<open>fn2\<close> returns no values and does not panic; the call of the synthesized
  function then panics in the reflect runtime (wrong return count) exactly when the
  constructor's type has at least one result, and returns no values otherwise.
\<close>

theorem fn2_absent_entry:
  assumes "m e = None"
  shows "fn2 e [VParsed (Some m)] = Inr []
       \<and> invoke (MakeFunc t (Fn2 e)) [VParsed (Some m)] h =
           (if NumOut t = 0 then Inr ([], h) else Inl WrongReturnCount)"
  using assms by (simp add: fn2_def invoke_def)

theorem fn2_absent_entry_witness:
  "Map.empty (0::nat) = (None :: val list option)
   \<and> fn2 0 [VParsed (Some Map.empty)] = Inr []
   \<and> invoke (MakeFunc (FuncOf parsedPtrTypes [TPtr (TNamed ''logfx.flags'')] False) (Fn2 0))
        [VParsed (Some Map.empty)] demo_store = Inl WrongReturnCount"
proof -
  have h: "Map.empty (0::nat) = (None :: val list option)" by simp
  from fn2_absent_entry [where m = Map.empty and e = 0 and h = demo_store
      and t = "FuncOf parsedPtrTypes [TPtr (TNamed ''logfx.flags'')] False", OF h]
  show ?thesis by (simp add: NumOut_def FuncOf_def)
qed

text \<open>
  C9. Let \<open>cs\<close> be distinct, mutually independent functions and \<open>cs'\<close> a permutation of
  them; let each list be registered by \<^verbatim>\<open>Provide\<close> and resolved from the same outside
  state, each by a host that hands the entries to the barrier in a permutation of its
  own; and let both passes start. Then every constructor has the same Release-stage
  output in both passes: as maps from constructor to output, the two results are equal.
\<close>

theorem release_outputs_independent_of_order:
  assumes "mset cs' = mset cs" and "distinct cs" and "list_all is_func cs"
    and "mutually_independent rt hst cs"
    and "resolved hst' = resolved hst"
    and "mset (shuffle hst [length h0..<length h0 + length cs]) = mset [length h0..<length h0 + length cs]"
    and "mset (shuffle hst' [length h0..<length h0 + length cs]) = mset [length h0..<length h0 + length cs]"
    and "resolve rt hst (fst (Provide cs h0)) fs argv \<lparr>heap = snd (Provide cs h0), ext = x, trace = []\<rparr>
           = (Started rs, w1)"
    and "resolve rt hst' (fst (Provide cs' h0)) fs argv \<lparr>heap = snd (Provide cs' h0), ext = x, trace = []\<rparr>
           = (Started rs', w1')"
  shows "map_of (zip cs (map snd rs)) = map_of (zip cs' (map snd rs'))"
proof -
  let ?F = "\<lambda>c. outputs_at rt c (deps hst c) x"
  let ?w = "\<lparr>heap = snd (Provide cs h0), ext = x, trace = []\<rparr>"
  let ?w' = "\<lparr>heap = snd (Provide cs' h0), ext = x, trace = []\<rparr>"
  have set': "set cs' = set cs" using assms(1) by (rule mset_eq_setD)
  have len': "length cs' = length cs" using assms(1) by (rule mset_eq_length)
  have dist': "distinct cs'" using assms(1,2) mset_eq_imp_distinct_iff by blast
  have funcs': "list_all is_func cs'" using assms(3) set' by (simp add: list_all_iff)
  have deps': "deps hst' = deps hst" using assms(5) by (simp add: deps_def fun_eq_iff)
  have ind': "mutually_independent rt hst' cs'"
    using assms(4) unfolding mutually_independent_def set' deps' .
  have perm': "mset (shuffle hst' [length h0..<length h0 + length cs']) = mset [length h0..<length h0 + length cs']"
    using assms(7) unfolding len' .
  have hw: "heap ?w = snd (Provide cs h0)" and hw': "heap ?w' = snd (Provide cs' h0)" by simp_all
  have "map snd rs = map (\<lambda>c. outputs_at rt c (deps hst c) (ext ?w)) cs"
    using assms(3,2,6,4) hw assms(8) by (rule pass_outputs)
  then have a: "map snd rs = map ?F cs" by simp
  have "map snd rs' = map (\<lambda>c. outputs_at rt c (deps hst' c) (ext ?w')) cs'"
    using funcs' dist' perm' ind' hw' assms(9) by (rule pass_outputs)
  then have b: "map snd rs' = map ?F cs'" by (simp add: deps')
  have "map_of (zip cs (map ?F cs)) = map_of (zip cs' (map ?F cs'))"
    by (simp add: map_of_zip_map set' fun_eq_iff)
  then show ?thesis unfolding a b .
qed

theorem release_outputs_independent_of_order_witness:
  "mset [verfx_ctor, logfx_ctor] = mset [logfx_ctor, verfx_ctor]
   \<and> distinct [logfx_ctor, verfx_ctor]
   \<and> mutually_independent demo_rt demo_host [logfx_ctor, verfx_ctor]
   \<and> map_of (zip [logfx_ctor, verfx_ctor]
        [[VPtr (TNamed ''logfx.flags'') 0], [VPtr (TNamed ''verfx.flags'') 1]])
     = map_of (zip [verfx_ctor, logfx_ctor]
        [[VPtr (TNamed ''verfx.flags'') 1], [VPtr (TNamed ''logfx.flags'') 0]])"
proof -
  let ?cs = "[logfx_ctor, verfx_ctor]"
  let ?cs' = "[verfx_ctor, logfx_ctor]"
  let ?h0 = "[] :: store"
  let ?x = "\<lparr>defined = [], was_parsed = False\<rparr>"
  let ?w = "\<lparr>heap = snd (Provide ?cs ?h0), ext = ?x, trace = []\<rparr>"
  let ?w' = "\<lparr>heap = snd (Provide ?cs' ?h0), ext = ?x, trace = []\<rparr>"
  let ?rs = "[(0, [VPtr (TNamed ''logfx.flags'') 0]), (1, [VPtr (TNamed ''verfx.flags'') 1])]"
  let ?rs' = "[(0, [VPtr (TNamed ''verfx.flags'') 1]), (1, [VPtr (TNamed ''logfx.flags'') 0])]"
  have h1: "mset ?cs' = mset ?cs" by (simp add: add.commute)
  have h2: "distinct ?cs" by (simp add: demo_defs)
  have h3: "list_all is_func ?cs" by (simp add: is_func_def demo_defs)
  have h4: "mutually_independent demo_rt demo_host ?cs"
    by (simp add: mutually_independent_def returned_def deps_def demo_defs)
  have h5: "resolved demo_host_fifo = resolved demo_host"
    by (simp add: demo_host_fifo_def demo_host_def)
  have h6: "mset (shuffle demo_host [length ?h0..<length ?h0 + length ?cs])
              = mset [length ?h0..<length ?h0 + length ?cs]"
    by (simp add: demo_defs)
  have h7: "mset (shuffle demo_host_fifo [length ?h0..<length ?h0 + length ?cs])
              = mset [length ?h0..<length ?h0 + length ?cs]"
    by (simp add: demo_host_fifo_def)
  have h8: "resolve demo_rt demo_host (fst (Provide ?cs ?h0)) 0 [''version''] ?w
              = (Started ?rs, snd (resolve demo_rt demo_host (fst (Provide ?cs ?h0)) 0 [''version''] ?w))"
    by (simp add: reg_defs run_defs demo_defs)
  have h9: "resolve demo_rt demo_host_fifo (fst (Provide ?cs' ?h0)) 0 [''version''] ?w'
              = (Started ?rs', snd (resolve demo_rt demo_host_fifo (fst (Provide ?cs' ?h0)) 0 [''version''] ?w'))"
    by (simp add: reg_defs run_defs demo_defs demo_host_fifo_def)
  from release_outputs_independent_of_order [OF h1 h2 h3 h4 h5 h6 h7 h8 h9] h1 h2 h4 show ?thesis by simp
qed

text \<open>
  C10. When the constructors are the functions \<open>pre\<close>, then a value \<open>v\<close> that is not a
  function, then \<open>post\<close>, \<^verbatim>\<open>Provide\<close> returns the pairs of synthesized functions for
  \<open>pre\<close>, in order, followed by the error option, and has allocated entries for \<open>pre\<close>
  only: nothing of \<open>post\<close> is registered.
\<close>

theorem Provide_stops_at_first_non_function:
  assumes "list_all is_func pre" and "\<not> is_func v"
  shows "Provide (pre @ v # post) h =
           (fx_Options (map (\<lambda>(e, c). fx_Provide (providers_for e c)) (enumerate (length h) pre)
                          @ [fx_Error not_a_function]),
            h @ map new_entry pre)"
  using assms by (simp add: Provide_eq takeWhile_append2 list_all_iff)

theorem Provide_stops_at_first_non_function_witness:
  "list_all is_func [logfx_ctor] \<and> \<not> is_func (VInt 3)
   \<and> Provide [logfx_ctor, VInt 3, verfx_ctor] [] =
       (fx_Options [fx_Provide (providers_for 0 logfx_ctor), fx_Error not_a_function],
        [new_entry logfx_ctor])"
proof -
  have h1: "list_all is_func [logfx_ctor]" by (simp add: is_func_def logfx_ctor_def)
  have h2: "\<not> is_func (VInt 3)" by (simp add: is_func_def)
  from Provide_stops_at_first_non_function [OF h1 h2, of "[verfx_ctor]" "[]"] h1 h2
  show ?thesis by (simp add: enumerate_simps)
qed

end
